theory Spec2Isabelle
  imports Complex_Main "HOL-Library.Word"
begin

section \<open>Data model\<close>

text \<open>
  The program (\<^verbatim>\<open>main.go\<close>) compares the output of unscaled self attention with
  the first eigenvector column of the Gram matrix of a set of feature vectors.

  Representation choices.
  \<^item> The closures \<^verbatim>\<open>softmax\<close>, \<^verbatim>\<open>dot\<close> and \<^verbatim>\<open>cs\<close> of \<open>main\<close> are written for any
    arithmetic and read at two types. At \<^verbatim>\<open>float64\<close> they are the program: a
    value is a finite number, an infinity or NaN, and every operation rounds to
    nearest (ties to even), overflows to an infinity and underflows gradually, as
    IEEE 754 binary64 does. (Each operation is rounded on its own: a fused
    multiply-add, which the Go compiler may emit on some architectures, is not
    modelled.) At \<^typ>\<open>real\<close> they are the same formulas computed without
    rounding.
  \<^item> A gonum \<^verbatim>\<open>*mat.Dense\<close> is an address into a heap of matrices, a matrix being
    the list of its rows; every gonum call that writes its receiver returns the
    updated heap, every gonum panic is an \<open>error\<close> value. The entries of a matrix are
    reals and \<open>process\<close> uses the closures at \<^typ>\<open>real\<close>: the theorems about
    \<open>process\<close> and \<open>main\<close> are about the structure of the computation (which object
    is written, which column is read, which branch is taken, which products are
    summed).
  \<^item> The collaborators whose code is not part of the repository are parameters:
    the seeded generator of \<^verbatim>\<open>math/rand\<close> (\<open>NewSource\<close>, \<open>Float64\<close>), the
    eigen-decomposition of gonum (\<open>Factorize\<close>), \<^verbatim>\<open>math.Exp\<close> and the contents of
    the embedded archive (the value returned by \<open>Load\<close>).
\<close>

datatype error =
    ErrZeroLength | ErrShape | ErrRowAccess | ErrColAccess | ErrRowLength
  | IndexOutOfRange | EigenFailed | LoadFailed

record Fisher =
  Measures :: "real list"
  Label :: string
  Cluster :: int
  Index :: int

type_synonym matrix = "real list list"
type_synonym addr = nat
type_synonym heap = "matrix list"

text \<open>Sequencing of calls that may panic: the first panic ends the computation.\<close>

definition bindE :: "error + 'a \<Rightarrow> ('a \<Rightarrow> error + 'b) \<Rightarrow> error + 'b" where
  "bindE m f = (case m of Inl e \<Rightarrow> Inl e | Inr x \<Rightarrow> f x)"

section \<open>float64\<close>

text \<open>
  A \<^verbatim>\<open>float64\<close> is a finite number, an infinity or NaN. A finite value is the real
  number it denotes. The sign of a zero is not represented: the closures below
  divide by a sum of exponentials or by a product of square roots, which are never
  the negative zero.
\<close>

datatype float64 = Finite real | PosInf | NegInf | NaN

text \<open>
  Rounding to nearest, ties to even. \<open>quantum x\<close> is the spacing of the
  \<^verbatim>\<open>float64\<close> grid around \<open>x\<close>: \<open>2 powi (e - 52)\<close> in the binade
  \<open>2 powi e \<le> \<bar>x\<bar> < 2 powi (e + 1)\<close>, and \<open>2 powi (- 1074)\<close> below \<open>2 powi (- 1022)\<close>
  (gradual underflow). \<open>round64 x\<close> is the multiple of the quantum nearest to \<open>x\<close>,
  the even one of two that are equally near, and an infinity when that multiple
  reaches \<open>2 ^ 1024\<close>. \<open>is_float64 x\<close>: the real \<open>x\<close> is on the grid.
\<close>

definition rne :: "real \<Rightarrow> int" where
  "rne y =
     (let f = \<lfloor>y\<rfloor>; d = y - of_int f
      in if d < 1 / 2 then f else if 1 / 2 < d then f + 1 else if even f then f else f + 1)"

definition quantum :: "real \<Rightarrow> real" where
  "quantum x = 2 powi (max \<lfloor>log 2 \<bar>x\<bar>\<rfloor> (- 1022) - 52)"

definition round64 :: "real \<Rightarrow> float64" where
  "round64 x =
     (let r = quantum x * of_int (rne (x / quantum x))
      in if 2 ^ 1024 \<le> \<bar>r\<bar> then (if 0 < x then PosInf else NegInf) else Finite r)"


text \<open>
  The operations \<^verbatim>\<open>+ - * /\<close> and the comparisons \<^verbatim>\<open>< <=\<close> of IEEE 754: the exact
  result is rounded; NaN propagates and compares false with everything.
\<close>

fun fadd :: "float64 \<Rightarrow> float64 \<Rightarrow> float64" where
  "fadd (Finite x) (Finite y) = round64 (x + y)"
| "fadd NaN _ = NaN"
| "fadd _ NaN = NaN"
| "fadd PosInf NegInf = NaN"
| "fadd NegInf PosInf = NaN"
| "fadd PosInf _ = PosInf"
| "fadd _ PosInf = PosInf"
| "fadd NegInf _ = NegInf"
| "fadd _ NegInf = NegInf"

fun fsub :: "float64 \<Rightarrow> float64 \<Rightarrow> float64" where
  "fsub (Finite x) (Finite y) = round64 (x - y)"
| "fsub NaN _ = NaN"
| "fsub _ NaN = NaN"
| "fsub PosInf PosInf = NaN"
| "fsub NegInf NegInf = NaN"
| "fsub PosInf _ = PosInf"
| "fsub _ PosInf = NegInf"
| "fsub NegInf _ = NegInf"
| "fsub _ NegInf = PosInf"

fun fmul :: "float64 \<Rightarrow> float64 \<Rightarrow> float64" where
  "fmul (Finite x) (Finite y) = round64 (x * y)"
| "fmul NaN _ = NaN"
| "fmul _ NaN = NaN"
| "fmul PosInf (Finite y) = (if y = 0 then NaN else if 0 < y then PosInf else NegInf)"
| "fmul NegInf (Finite y) = (if y = 0 then NaN else if 0 < y then NegInf else PosInf)"
| "fmul (Finite x) PosInf = (if x = 0 then NaN else if 0 < x then PosInf else NegInf)"
| "fmul (Finite x) NegInf = (if x = 0 then NaN else if 0 < x then NegInf else PosInf)"
| "fmul PosInf PosInf = PosInf"
| "fmul NegInf NegInf = PosInf"
| "fmul PosInf NegInf = NegInf"
| "fmul NegInf PosInf = NegInf"

fun fdiv :: "float64 \<Rightarrow> float64 \<Rightarrow> float64" where
  "fdiv (Finite x) (Finite y) =
     (if y = 0 then (if x = 0 then NaN else if 0 < x then PosInf else NegInf)
      else round64 (x / y))"
| "fdiv NaN _ = NaN"
| "fdiv _ NaN = NaN"
| "fdiv (Finite x) PosInf = Finite 0"
| "fdiv (Finite x) NegInf = Finite 0"
| "fdiv PosInf (Finite y) = (if 0 \<le> y then PosInf else NegInf)"
| "fdiv NegInf (Finite y) = (if 0 \<le> y then NegInf else PosInf)"
| "fdiv _ _ = NaN"

fun flt :: "float64 \<Rightarrow> float64 \<Rightarrow> bool" where
  "flt (Finite x) (Finite y) \<longleftrightarrow> x < y"
| "flt NaN _ \<longleftrightarrow> False"
| "flt _ NaN \<longleftrightarrow> False"
| "flt NegInf NegInf \<longleftrightarrow> False"
| "flt NegInf _ \<longleftrightarrow> True"
| "flt PosInf _ \<longleftrightarrow> False"
| "flt (Finite x) PosInf \<longleftrightarrow> True"
| "flt (Finite x) NegInf \<longleftrightarrow> False"

fun fle :: "float64 \<Rightarrow> float64 \<Rightarrow> bool" where
  "fle (Finite x) (Finite y) \<longleftrightarrow> x \<le> y"
| "fle NaN _ \<longleftrightarrow> False"
| "fle _ NaN \<longleftrightarrow> False"
| "fle NegInf _ \<longleftrightarrow> True"
| "fle _ PosInf \<longleftrightarrow> True"
| "fle PosInf _ \<longleftrightarrow> False"
| "fle _ NegInf \<longleftrightarrow> False"

instantiation float64 :: "{zero, plus, minus, times, inverse, ord}"
begin

definition zero_float64 :: float64 where
  "0 = Finite 0"

definition plus_float64 :: "float64 \<Rightarrow> float64 \<Rightarrow> float64" where
  "x + y = fadd x y"

definition minus_float64 :: "float64 \<Rightarrow> float64 \<Rightarrow> float64" where
  "x - y = fsub x y"

definition times_float64 :: "float64 \<Rightarrow> float64 \<Rightarrow> float64" where
  "x * y = fmul x y"

definition divide_float64 :: "float64 \<Rightarrow> float64 \<Rightarrow> float64" where
  "x div y = fdiv x y"

definition inverse_float64 :: "float64 \<Rightarrow> float64" where
  "inverse x = fdiv (Finite 1) x"

definition less_float64 :: "float64 \<Rightarrow> float64 \<Rightarrow> bool" where
  "x < y \<longleftrightarrow> flt x y"

definition less_eq_float64 :: "float64 \<Rightarrow> float64 \<Rightarrow> bool" where
  "x \<le> y \<longleftrightarrow> fle x y"

instance ..

end



text \<open>The values that are neither negative nor NaN.\<close>

fun nonneg64 :: "float64 \<Rightarrow> bool" where
  "nonneg64 (Finite r) \<longleftrightarrow> 0 \<le> r"
| "nonneg64 PosInf \<longleftrightarrow> True"
| "nonneg64 NegInf \<longleftrightarrow> False"
| "nonneg64 NaN \<longleftrightarrow> False"

section \<open>The closures of \<open>main\<close>: softmax, dot, cs\<close>

text \<open>
  \<^verbatim>\<open>const S = 1.0 - 1e-300\<close> is an exact constant of the language; where it
  multiplies a \<^verbatim>\<open>float64\<close> it is converted to \<^verbatim>\<open>float64\<close>, which rounds it
  (to 1, lemma \<open>S64_one\<close>).
\<close>

definition S :: real where
  "S = 1 - 1 / 10 ^ 300"




definition shift_base :: "real list \<Rightarrow> real" where
  "shift_base values = foldl (\<lambda>mx v. if v > mx then v else mx) 0 values"

definition softmax :: "real list \<Rightarrow> real list" where
  "softmax values =
     (let s = shift_base values * S;
          exps = map (\<lambda>value. exp (value - s)) values;
          total = foldl (+) 0 exps
      in map (\<lambda>value. value / total) exps)"

text \<open>
  \<^verbatim>\<open>dot\<close> ranges over \<open>a\<close> and indexes \<open>b\<close>: a shorter \<open>b\<close> is an index panic, the
  tail of a longer \<open>b\<close> is not read. The accumulation \<open>dot_sum\<close>, \<open>dot_on\<close> and
  \<open>cs_on Sqrt\<close> are written for any arithmetic. The program is \<open>cs_on sqrt64\<close> at
  \<^typ>\<open>float64\<close>; \<open>dot\<close> and \<open>cs\<close> are the same closures at \<^typ>\<open>real\<close>, computed
  without rounding.
\<close>

definition dot_sum :: "'a::{zero,plus,times} list \<Rightarrow> 'a list \<Rightarrow> 'a" where
  "dot_sum a b = foldl (\<lambda>x (value, bi). x + value * bi) 0 (zip a b)"



definition dot :: "real list \<Rightarrow> real list \<Rightarrow> error + real" where
  "dot a b = (if length b < length a then Inl IndexOutOfRange else Inr (dot_sum a b))"

definition cs :: "real list \<Rightarrow> real list \<Rightarrow> error + real" where
  "cs a b =
     bindE (dot a b) (\<lambda>ab.
     bindE (dot a a) (\<lambda>aa.
     bindE (dot b b) (\<lambda>bb.
       if aa \<le> 0 then Inr 0
       else if bb \<le> 0 then Inr 0
       else Inr (ab / (sqrt aa * sqrt bb)))))"

section \<open>The gonum calls of \<open>process\<close>\<close>

definition rowsOf :: "matrix \<Rightarrow> nat" where
  "rowsOf m = length m"

definition colsOf :: "matrix \<Rightarrow> nat" where
  "colsOf m = (case m of [] \<Rightarrow> 0 | r # _ \<Rightarrow> length r)"

definition column :: "'a list list \<Rightarrow> nat \<Rightarrow> 'a list" where
  "column m j = map (\<lambda>row. row ! j) m"

text \<open>
  \<^verbatim>\<open>mat.NewDense(r, c, data)\<close>: panics on a zero dimension and on a backing slice
  whose length is not \<open>r * c\<close>; \<open>nil\<close> data gives the zero matrix; otherwise the
  rows are the consecutive runs of \<open>c\<close> elements of \<open>data\<close>.
\<close>

definition NewDense :: "heap \<Rightarrow> nat \<Rightarrow> nat \<Rightarrow> real list option \<Rightarrow> error + (addr \<times> heap)" where
  "NewDense h r c data =
     (if r = 0 \<or> c = 0 then Inl ErrZeroLength
      else case data of
        None \<Rightarrow> Inr (length h, h @ [replicate r (replicate c 0)])
      | Some d \<Rightarrow>
          if r * c \<noteq> length d then Inl ErrShape
          else Inr (length h, h @ [map (\<lambda>i. take c (drop (i * c) d)) [0..<r]]))"

text \<open>An operand of \<^verbatim>\<open>Mul\<close> is a matrix or the view \<^verbatim>\<open>a.T()\<close> of one.\<close>

datatype view = Plain addr | Transposed addr

fun deref :: "heap \<Rightarrow> view \<Rightarrow> matrix" where
  "deref h (Plain a) = h ! a"
| "deref h (Transposed a) = map (column (h ! a)) [0..<colsOf (h ! a)]"

text \<open>
  \<^verbatim>\<open>dst.Mul(a, b)\<close>: the receiver becomes the matrix product; entry \<open>(i, j)\<close> is
  the sum over \<open>k\<close>, in index order, of \<open>a[i][k] * b[k][j]\<close>.
\<close>

definition Mul :: "heap \<Rightarrow> addr \<Rightarrow> view \<Rightarrow> view \<Rightarrow> error + heap" where
  "Mul h dst va vb =
     (let a = deref h va; b = deref h vb in
      if colsOf a \<noteq> rowsOf b then Inl ErrShape
      else if rowsOf (h ! dst) \<noteq> rowsOf a \<or> colsOf (h ! dst) \<noteq> colsOf b then Inl ErrShape
      else Inr (h[dst := map (\<lambda>row. map (\<lambda>j. dot_sum row (column b j)) [0..<colsOf b]) a]))"

text \<open>\<^verbatim>\<open>dst.Copy(src)\<close> copies the overlap of the two matrices into the receiver.\<close>

definition Copy :: "heap \<Rightarrow> addr \<Rightarrow> addr \<Rightarrow> heap" where
  "Copy h dst src =
     (let d = h ! dst; s = h ! src;
          r = min (rowsOf d) (rowsOf s); c = min (colsOf d) (colsOf s)
      in h[dst := map (\<lambda>i. take c (s ! i) @ drop c (d ! i)) [0..<r] @ drop r d])"

definition At :: "heap \<Rightarrow> addr \<Rightarrow> nat \<Rightarrow> nat \<Rightarrow> error + real" where
  "At h m i j =
     (if rowsOf (h ! m) \<le> i then Inl ErrRowAccess
      else if colsOf (h ! m) \<le> j then Inl ErrColAccess
      else Inr (h ! m ! i ! j))"

definition SetRow :: "heap \<Rightarrow> addr \<Rightarrow> nat \<Rightarrow> real list \<Rightarrow> error + heap" where
  "SetRow h m i src =
     (if rowsOf (h ! m) \<le> i then Inl ErrRowAccess
      else if length src \<noteq> colsOf (h ! m) then Inl ErrRowLength
      else Inr (h[m := (h ! m)[i := src]]))"

text \<open>\<^verbatim>\<open>eigenvectors.At(r, c)\<close> on the complex matrix filled by \<^verbatim>\<open>VectorsTo\<close>.\<close>

definition CAt :: "complex list list \<Rightarrow> nat \<Rightarrow> nat \<Rightarrow> error + complex" where
  "CAt m i j =
     (if length m \<le> i then Inl ErrRowAccess
      else if length (m ! i) \<le> j then Inl ErrColAccess
      else Inr (m ! i ! j))"

section \<open>process\<close>

text \<open>The inner loop \<^verbatim>\<open>for ii := range row { row[ii] = cp.At(r, ii) }\<close>.\<close>

fun read_row :: "heap \<Rightarrow> addr \<Rightarrow> nat \<Rightarrow> nat list \<Rightarrow> error + real list" where
  "read_row h m r [] = Inr []"
| "read_row h m r (ii # iis) =
     bindE (At h m r ii) (\<lambda>v.
     bindE (read_row h m r iis) (\<lambda>vs. Inr (v # vs)))"

text \<open>
  The loop \<^verbatim>\<open>for r := range len(iris)\<close>: a fresh slice \<open>row\<close> receives row \<open>r\<close> of
  \<open>cp\<close>, is overwritten by \<open>softmax\<close> and is stored back with \<^verbatim>\<open>cp.SetRow\<close>.
\<close>

fun softmax_rows :: "heap \<Rightarrow> addr \<Rightarrow> nat \<Rightarrow> nat list \<Rightarrow> error + heap" where
  "softmax_rows h cp n [] = Inr h"
| "softmax_rows h cp n (r # rs) =
     bindE (read_row h cp r [0..<n]) (\<lambda>row.
     bindE (SetRow h cp r (softmax row)) (\<lambda>h'.
     softmax_rows h' cp n rs))"

text \<open>
  Lines 157 to 176 of \<open>process\<close>: the result is the heap at the moment
  \<^verbatim>\<open>eig.Factorize(adj, mat.EigenRight)\<close> is called, with the addresses of
  \<open>a\<close>, \<open>adj\<close>, \<open>cp\<close> and \<open>x\<close>.
\<close>

definition self_attention :: "Fisher list \<Rightarrow> error + (heap \<times> addr \<times> addr \<times> addr \<times> addr)" where
  "self_attention iris =
     (let n = length iris; data = concat (map Measures iris) in
      bindE (NewDense [] n 4 (Some data)) (\<lambda>(a, h0).
      bindE (NewDense h0 n n None) (\<lambda>(adj, h1).
      bindE (Mul h1 adj (Plain a) (Transposed a)) (\<lambda>h2.
      bindE (NewDense h2 n n None) (\<lambda>(cp, h3).
      bindE (softmax_rows (Copy h3 cp adj) cp n [0..<n]) (\<lambda>h4.
      bindE (NewDense h4 n 4 None) (\<lambda>(x, h5).
      bindE (Mul h5 x (Plain cp) (Plain a)) (\<lambda>h6.
      Inr (h6, a, adj, cp, x)))))))))"

text \<open>
  The loop that builds the two signals: \<open>i\<close> from column 0 of the eigenvector
  matrix (\<^verbatim>\<open>cmplx.Abs\<close>), \<open>j\<close> from column 0 of \<open>x\<close>.
\<close>

fun signals :: "heap \<Rightarrow> addr \<Rightarrow> complex list list \<Rightarrow> nat list \<Rightarrow> error + (real list \<times> real list)" where
  "signals h x eigenvectors [] = Inr ([], [])"
| "signals h x eigenvectors (r # rs) =
     bindE (CAt eigenvectors r 0) (\<lambda>e.
     bindE (At h x r 0) (\<lambda>v.
     bindE (signals h x eigenvectors rs) (\<lambda>(i, j).
     Inr (cmod e # i, v # j))))"

text \<open>
  \<open>Factorize\<close> stands for \<^verbatim>\<open>eig.Factorize\<close> followed by \<^verbatim>\<open>eig.VectorsTo\<close>: given the
  matrix stored at \<open>adj\<close> it fails (\<open>None\<close>) or yields the eigenvalues and the
  matrix whose columns are the right eigenvectors, in the order of the routine.
\<close>

type_synonym eigen = "matrix \<Rightarrow> (complex list \<times> complex list list) option"

definition process :: "eigen \<Rightarrow> Fisher list \<Rightarrow> error + real" where
  "process Factorize iris =
     bindE (self_attention iris) (\<lambda>(h, a, adj, cp, x).
       case Factorize (h ! adj) of
         None \<Rightarrow> Inl EigenFailed
       | Some (eigenvalues, eigenvectors) \<Rightarrow>
           bindE (signals h x eigenvectors [0..<length iris]) (\<lambda>(i, j). cs i j))"


section \<open>Random\<close>

text \<open>
  \<^verbatim>\<open>rand.New(rand.NewSource(seed))\<close> makes a generator that is local to the call; its
  state is threaded through the 150 * 4 calls of \<^verbatim>\<open>rng.Float64()\<close> in the order of
  the two loops. \<^verbatim>\<open>fmt.Sprintf("%d", i)\<close> is the decimal numeral of \<open>i\<close>.
\<close>

definition digit :: "nat \<Rightarrow> char" where
  "digit d = ''0123456789'' ! d"

fun itoa :: "nat \<Rightarrow> string" where
  "itoa n = (if n < 10 then [digit n] else itoa (n div 10) @ [digit (n mod 10)])"

fun draw :: "('g \<Rightarrow> real \<times> 'g) \<Rightarrow> nat \<Rightarrow> 'g \<Rightarrow> real list \<times> 'g" where
  "draw Float64 0 rng = ([], rng)"
| "draw Float64 (Suc k) rng =
     (let p = Float64 rng; q = draw Float64 k (snd p) in (fst p # fst q, snd q))"

fun fill :: "('g \<Rightarrow> real \<times> 'g) \<Rightarrow> nat \<Rightarrow> nat \<Rightarrow> 'g \<Rightarrow> Fisher list" where
  "fill Float64 i 0 rng = []"
| "fill Float64 i (Suc k) rng =
     (let p = draw Float64 4 rng
      in \<lparr>Measures = fst p, Label = itoa i, Cluster = 0, Index = int i\<rparr>
         # fill Float64 (Suc i) k (snd p))"

definition Random :: "(64 word \<Rightarrow> 'g) \<Rightarrow> ('g \<Rightarrow> real \<times> 'g) \<Rightarrow> 64 word \<Rightarrow> Fisher list" where
  "Random NewSource Float64 seed = fill Float64 0 150 (NewSource seed)"

text \<open>
  The generators of \<^verbatim>\<open>math/rand\<close> are objects. To state what a call of \<open>Random\<close>
  depends on and what it changes, they are put in a store, which holds every
  generator of the program (the one behind the package-level functions of
  \<^verbatim>\<open>math/rand\<close> included): \<^verbatim>\<open>rand.New(rand.NewSource(seed))\<close> allocates a cell,
  \<^verbatim>\<open>rng.Float64()\<close> reads and advances the cell of its receiver. \<open>Random_in\<close> is
  \<open>Random\<close> with the store made explicit: it returns the records and the store
  it leaves.
\<close>

type_synonym 'g store = "'g list"

definition NewSource_in :: "(64 word \<Rightarrow> 'g) \<Rightarrow> 64 word \<Rightarrow> 'g store \<Rightarrow> addr \<times> 'g store" where
  "NewSource_in NewSource seed st = (length st, st @ [NewSource seed])"

definition Float64_in :: "('g \<Rightarrow> real \<times> 'g) \<Rightarrow> addr \<Rightarrow> 'g store \<Rightarrow> real \<times> 'g store" where
  "Float64_in Float64 rng st = (fst (Float64 (st ! rng)), st[rng := snd (Float64 (st ! rng))])"

fun draw_in :: "('g \<Rightarrow> real \<times> 'g) \<Rightarrow> addr \<Rightarrow> nat \<Rightarrow> 'g store \<Rightarrow> real list \<times> 'g store" where
  "draw_in Float64 rng 0 st = ([], st)"
| "draw_in Float64 rng (Suc k) st =
     (let p = Float64_in Float64 rng st; q = draw_in Float64 rng k (snd p)
      in (fst p # fst q, snd q))"

fun fill_in ::
  "('g \<Rightarrow> real \<times> 'g) \<Rightarrow> addr \<Rightarrow> nat \<Rightarrow> nat \<Rightarrow> 'g store \<Rightarrow> Fisher list \<times> 'g store" where
  "fill_in Float64 rng i 0 st = ([], st)"
| "fill_in Float64 rng i (Suc k) st =
     (let p = draw_in Float64 rng 4 st; q = fill_in Float64 rng (Suc i) k (snd p)
      in (\<lparr>Measures = fst p, Label = itoa i, Cluster = 0, Index = int i\<rparr> # fst q, snd q))"

definition Random_in ::
  "(64 word \<Rightarrow> 'g) \<Rightarrow> ('g \<Rightarrow> real \<times> 'g) \<Rightarrow> 64 word \<Rightarrow> 'g store \<Rightarrow> Fisher list \<times> 'g store" where
  "Random_in NewSource Float64 seed st =
     (let p = NewSource_in NewSource seed st in fill_in Float64 (fst p) 0 150 (snd p))"

section \<open>main\<close>

text \<open>
  The loop \<^verbatim>\<open>for i := range 128\<close>: the data set of seed \<^verbatim>\<open>int64(i + 1)\<close> is processed
  and \<open>count\<close> is incremented when the result is below \<open>.95\<close>. A panic of
  \<open>process\<close> ends the program.
\<close>

fun synthetic_trials :: "eigen \<Rightarrow> (64 word \<Rightarrow> Fisher list) \<Rightarrow> nat list \<Rightarrow> nat \<Rightarrow> error + nat" where
  "synthetic_trials Factorize random [] count = Inr count"
| "synthetic_trials Factorize random (i # is) count =
     bindE (process Factorize (random (of_nat (i + 1)))) (\<lambda>cs.
     synthetic_trials Factorize random is (if cs < 95 / 100 then count + 1 else count))"

text \<open>
  \<open>Load\<close> is the value of \<^verbatim>\<open>Load()\<close>: the records of the embedded archive, or the
  panic of a failed read. The result of \<open>main\<close> is the line it prints.
\<close>

definition main ::
  "error + Fisher list \<Rightarrow> (64 word \<Rightarrow> 'g) \<Rightarrow> ('g \<Rightarrow> real \<times> 'g) \<Rightarrow> eigen \<Rightarrow> error + string" where
  "main Load NewSource Float64 Factorize =
     bindE Load (\<lambda>iris.
     bindE (process Factorize iris) (\<lambda>first.
     bindE (synthetic_trials Factorize (Random NewSource Float64) [0..<128]
              (if first < 95 / 100 then 1 else 0)) (\<lambda>count.
     Inr (itoa count @ ''/129 outside of cosine similarity .95'' @ [CHR 0x0A]))))"

section \<open>Notions used to state the properties\<close>

text \<open>
  The rows of the matrix \<open>a\<close>: \<^verbatim>\<open>NewDense(len(iris), 4, data)\<close> cuts the concatenated
  measures into runs of four. \<open>well_shaped\<close> is the condition under which the two
  checks of that call pass.
\<close>

definition vectors :: "Fisher list \<Rightarrow> matrix" where
  "vectors iris =
     map (\<lambda>i. take 4 (drop (i * 4) (concat (map Measures iris)))) [0..<length iris]"

definition well_shaped :: "Fisher list \<Rightarrow> bool" where
  "well_shaped iris \<longleftrightarrow>
     iris \<noteq> [] \<and> length (concat (map Measures iris)) = length iris * 4"

text \<open>The raw Gram matrix, its row-wise softmax and the attention output.\<close>

definition gram :: "'a::{zero,plus,times} list list \<Rightarrow> 'a list list" where
  "gram V = map (\<lambda>vi. map (\<lambda>j. dot_sum vi (V ! j)) [0..<length V]) V"

definition attention :: "matrix \<Rightarrow> matrix" where
  "attention V = map softmax (gram V)"

definition attention_output :: "matrix \<Rightarrow> matrix" where
  "attention_output V =
     map (\<lambda>row. map (\<lambda>j. dot_sum row (column V j)) [0..<colsOf V]) (attention V)"

text \<open>
  What a decomposition routine promises: \<open>n\<close> eigenvalues and an \<open>n \<times> n\<close> matrix
  whose column \<open>k\<close> is a non-zero vector \<open>v\<close> with \<open>G v = eigenvalues[k] v\<close>. The
  eigenvalue at index \<open>k\<close> is dominant when no eigenvalue has a larger magnitude.
\<close>

definition eigenpair :: "matrix \<Rightarrow> complex \<Rightarrow> complex list \<Rightarrow> bool" where
  "eigenpair G lam v \<longleftrightarrow>
     length v = length G \<and> (\<exists>z \<in> set v. z \<noteq> 0) \<and>
     map (\<lambda>row. \<Sum>(g, z)\<leftarrow>zip row v. complex_of_real g * z) G = map (\<lambda>z. lam * z) v"

definition square :: "nat \<Rightarrow> 'a list list \<Rightarrow> bool" where
  "square n m \<longleftrightarrow> length m = n \<and> list_all (\<lambda>row. length row = n) m"

definition decomposition :: "matrix \<Rightarrow> complex list \<Rightarrow> complex list list \<Rightarrow> bool" where
  "decomposition G eigenvalues eigenvectors \<longleftrightarrow>
     length eigenvalues = length G \<and> square (length G) eigenvectors \<and>
     list_all (\<lambda>k. eigenpair G (eigenvalues ! k) (column eigenvectors k)) [0..<length G]"

definition dominant :: "complex list \<Rightarrow> nat \<Rightarrow> bool" where
  "dominant eigenvalues k \<longleftrightarrow>
     k < length eigenvalues \<and> list_all (\<lambda>lam. cmod lam \<le> cmod (eigenvalues ! k)) eigenvalues"

text \<open>A list of trial results: the values when every trial returns, else the first panic.\<close>

fun collect :: "(error + 'a) list \<Rightarrow> error + 'a list" where
  "collect [] = Inr []"
| "collect (r # rs) = bindE r (\<lambda>v. bindE (collect rs) (\<lambda>vs. Inr (v # vs)))"

text \<open>Two data sets used as concrete inputs.\<close>

definition iris2 :: "Fisher list" where
  "iris2 = [\<lparr>Measures = [1, 0, 0, 0], Label = ''0'', Cluster = 0, Index = 0\<rparr>,
            \<lparr>Measures = [0, 2, 0, 0], Label = ''1'', Cluster = 0, Index = 1\<rparr>]"

definition iris3 :: "Fisher list" where
  "iris3 = [\<lparr>Measures = [1, 2, 3, 4], Label = ''0'', Cluster = 0, Index = 0\<rparr>,
            \<lparr>Measures = [5, 6, 7, 8], Label = ''1'', Cluster = 0, Index = 1\<rparr>,
            \<lparr>Measures = [0, 1, 0, 2], Label = ''2'', Cluster = 0, Index = 2\<rparr>]"

text \<open>A generator used as a concrete input: a counter whose last digit is the sample.\<close>

definition counterSource :: "64 word \<Rightarrow> nat" where
  "counterSource seed = unat seed"

definition counterFloat64 :: "nat \<Rightarrow> real \<times> nat" where
  "counterFloat64 g = (real (g mod 10) / 10, Suc g)"


text \<open>
  A routine used as a concrete input: it reports the zero matrix, so that the first
  signal is the zero vector and \<open>cs\<close> takes its fallback.
\<close>

definition zeroEigen :: eigen where
  "zeroEigen G = Some (replicate (length G) 0, replicate (length G) (replicate (length G) 0))"

section \<open>Basic facts\<close>

declare itoa.simps [simp del]

lemma bindE_Inr [simp]: "bindE (Inr x) f = f x"
  by (simp add: bindE_def)

lemma bindE_Inl [simp]: "bindE (Inl e) f = Inl e"
  by (simp add: bindE_def)

lemma foldl_dot_acc:
  "foldl (\<lambda>x (value, bi). x + value * bi) (acc::real) ps = acc + (\<Sum>(v, w)\<leftarrow>ps. v * w)"
  by (induction ps arbitrary: acc) (auto simp: algebra_simps)

lemma dot_sum_sum_list: "dot_sum a b = (\<Sum>(v, w)\<leftarrow>zip a b. v * (w::real))"
  by (simp add: dot_sum_def foldl_dot_acc)

text \<open>The accumulation is symmetric as soon as the product commutes.\<close>

lemma foldl_dot_commute:
  fixes a b :: "'a::{zero,plus,times} list"
  assumes "\<And>x y::'a. x * y = y * x"
  shows "foldl (\<lambda>x (value, bi). x + value * bi) acc (zip a b) =
         foldl (\<lambda>x (value, bi). x + value * bi) acc (zip b a)"
proof (induction a b arbitrary: acc rule: list_induct2')
  case (4 x xs y ys)
  then show ?case by (simp add: assms[of x y])
qed simp_all

lemma dot_sum_commute_any:
  fixes a b :: "'a::{zero,plus,times} list"
  assumes "\<And>x y::'a. x * y = y * x"
  shows "dot_sum a b = dot_sum b a"
  unfolding dot_sum_def by (rule foldl_dot_commute[OF assms])

lemma dot_sum_commute: "dot_sum a b = dot_sum b (a::real list)"
  by (rule dot_sum_commute_any) (rule mult.commute)

lemma dot_sum_self: "dot_sum a a = (\<Sum>v\<leftarrow>a. (v::real)\<^sup>2)"
  by (induction a) (auto simp: dot_sum_sum_list power2_eq_square)


section \<open>Cosine similarity\<close>


section \<open>The heap during \<open>process\<close>\<close>

lemma length_softmax [simp]: "length (softmax values) = length values"
  by (simp add: softmax_def Let_def)

lemma vectors_length [simp]: "length (vectors iris) = length iris"
  by (simp add: vectors_def)

lemma vectors_row_length:
  "well_shaped iris \<Longrightarrow> i < length iris \<Longrightarrow> length (vectors iris ! i) = 4"
  by (auto simp: vectors_def well_shaped_def)

lemma colsOf_nth: "m \<noteq> [] \<Longrightarrow> colsOf m = length (m ! 0)"
  by (cases m) (auto simp: colsOf_def)

lemma colsOf_vectors: "well_shaped iris \<Longrightarrow> colsOf (vectors iris) = 4"
  using vectors_row_length[of iris 0]
  by (cases "vectors iris")
     (auto simp: colsOf_def well_shaped_def nth_Cons' dest: arg_cong[where f = length])

lemma column_transposed:
  assumes "\<And>i. i < length V \<Longrightarrow> length (V ! i) = c" and "j < length V"
  shows "column (map (column V) [0..<c]) j = V ! j"
  using assms by (auto simp: column_def intro!: nth_equalityI)

lemma column_transposed_vectors:
  "well_shaped iris \<Longrightarrow> j < length iris \<Longrightarrow>
   column (map (column (vectors iris)) [0..<4]) j = vectors iris ! j"
  by (rule column_transposed) (auto simp: vectors_row_length)

lemma rowsOf_replicate [simp]: "rowsOf (replicate r row) = r"
  by (simp add: rowsOf_def)

lemma colsOf_replicate [simp]: "0 < r \<Longrightarrow> colsOf (replicate r row) = length row"
  by (cases r) (auto simp: colsOf_def)

lemma rowsOf_vectors [simp]: "rowsOf (vectors iris) = length iris"
  by (simp add: rowsOf_def)

lemma length_gram [simp]: "length (gram V) = length V"
  by (simp add: gram_def)

lemma rowsOf_gram [simp]: "rowsOf (gram V) = length V"
  by (simp add: rowsOf_def)

lemma gram_row_length [simp]: "i < length V \<Longrightarrow> length (gram V ! i) = length V"
  by (simp add: gram_def)

lemma colsOf_gram [simp]: "V \<noteq> [] \<Longrightarrow> colsOf (gram V) = length V"
  by (cases V) (auto simp: colsOf_def gram_def)

lemma gram_nth:
  "i < length V \<Longrightarrow> j < length V \<Longrightarrow> gram V ! i ! j = dot_sum (V ! i) (V ! j)"
  by (simp add: gram_def)

lemma length_attention [simp]: "length (attention V) = length V"
  by (simp add: attention_def)

lemma attention_row_length [simp]: "i < length V \<Longrightarrow> length (attention V ! i) = length V"
  by (simp add: attention_def)

lemma length_attention_output [simp]: "length (attention_output V) = length V"
  by (simp add: attention_output_def)

lemma NewDense_data:
  "well_shaped iris \<Longrightarrow>
   NewDense [] (length iris) 4 (Some (concat (map Measures iris))) = Inr (0, [vectors iris])"
  by (simp add: NewDense_def well_shaped_def vectors_def)

lemma NewDense_nil:
  "0 < r \<Longrightarrow> 0 < c \<Longrightarrow>
   NewDense h r c None = Inr (length h, h @ [replicate r (replicate c 0)])"
  by (simp add: NewDense_def)

lemma Mul_gram:
  assumes "well_shaped iris" and "h ! a = vectors iris" and "adj < length h"
    and "h ! adj = replicate (length iris) (replicate (length iris) 0)"
  shows "Mul h adj (Plain a) (Transposed a) = Inr (h[adj := gram (vectors iris)])"
proof -
  let ?V = "vectors iris"
  let ?b = "map (column ?V) [0..<4]"
  have n: "0 < length iris" using assms(1) by (simp add: well_shaped_def)
  have cols: "colsOf ?V = 4" by (rule colsOf_vectors[OF assms(1)])
  have cb: "colsOf ?b = length iris"
    by (simp add: colsOf_def upt_conv_Cons column_def)
  have "map (\<lambda>row. map (\<lambda>j. dot_sum row (column ?b j)) [0..<length iris]) ?V = gram ?V"
    unfolding gram_def
    by (rule map_cong[OF refl], rule map_cong)
       (auto simp: column_transposed_vectors[OF assms(1)])
  then show ?thesis
    using n by (simp add: Mul_def Let_def assms(2,4) cols cb rowsOf_def)
qed

lemma Copy_same_shape:
  assumes "dst < length h" and "length (h ! dst) = n" and "length (h ! src) = n" and "0 < n"
    and "\<And>i. i < n \<Longrightarrow> length (h ! src ! i) = n"
    and "\<And>i. i < n \<Longrightarrow> length (h ! dst ! i) = n"
  shows "Copy h dst src = h[dst := h ! src]"
proof -
  have "h ! dst \<noteq> []" and "h ! src \<noteq> []" using assms(2,3,4) by auto
  then have c1: "colsOf (h ! dst) = n" and c2: "colsOf (h ! src) = n"
    using assms(4,5,6) by (simp_all add: colsOf_nth)
  have "map (\<lambda>i. take n (h ! src ! i) @ drop n (h ! dst ! i)) [0..<n] = h ! src"
    using assms by (auto intro!: nth_equalityI)
  then show ?thesis
    using assms by (simp add: Copy_def Let_def rowsOf_def c1 c2)
qed

lemma read_row_upt:
  assumes "r < length (h ! m)" and "(h ! m) \<noteq> []" and "length (h ! m ! r) = colsOf (h ! m)"
    and "k \<le> colsOf (h ! m)"
  shows "read_row h m r [k..<colsOf (h ! m)] = Inr (drop k (h ! m ! r))"
  using assms(4)
proof (induction "colsOf (h ! m) - k" arbitrary: k)
  case 0
  then show ?case using assms by simp
next
  case (Suc d)
  then have k: "k < colsOf (h ! m)" by simp
  have "read_row h m r [Suc k..<colsOf (h ! m)] = Inr (drop (Suc k) (h ! m ! r))"
    using Suc by simp
  then show ?case
    using k assms(1,3)
    by (simp add: upt_conv_Cons At_def rowsOf_def Cons_nth_drop_Suc)
qed

lemma read_row_full:
  assumes "r < n" and "length (h ! m) = n" and "\<And>i. i < n \<Longrightarrow> length (h ! m ! i) = n"
  shows "read_row h m r [0..<n] = Inr (h ! m ! r)"
proof -
  have ne: "h ! m \<noteq> []" using assms(1,2) by auto
  have c: "colsOf (h ! m) = n" using assms by (simp add: colsOf_nth[OF ne])
  show ?thesis
    using read_row_upt[of r h m 0] assms ne c by simp
qed

lemma SetRow_ok:
  assumes "r < n" and "length (h ! m) = n" and "\<And>i. i < n \<Longrightarrow> length (h ! m ! i) = n"
    and "length row = n"
  shows "SetRow h m r row = Inr (h[m := (h ! m)[r := row]])"
proof -
  have ne: "h ! m \<noteq> []" using assms(1,2) by auto
  have c: "colsOf (h ! m) = n" using assms by (simp add: colsOf_nth[OF ne])
  show ?thesis using assms c by (simp add: SetRow_def rowsOf_def)
qed

text \<open>
  The loop over the rows, started at row \<open>k\<close>: the rows below \<open>k\<close> are kept, the
  others are replaced by their softmax; only the cell \<open>cp\<close> of the heap changes.
\<close>

lemma softmax_rows_upt:
  assumes "cp < length h" and "length (h ! cp) = n"
    and "\<And>i. i < n \<Longrightarrow> length (h ! cp ! i) = n" and "k \<le> n"
  shows "softmax_rows h cp n [k..<n] =
    Inr (h[cp := take k (h ! cp) @ map softmax (drop k (h ! cp))])"
  using assms
proof (induction "n - k" arbitrary: h k)
  case 0
  then show ?case by simp
next
  case (Suc d)
  then have k: "k < n" by simp
  let ?h' = "h[cp := (h ! cp)[k := softmax (h ! cp ! k)]]"
  have rows: "\<And>i. i < n \<Longrightarrow> length (?h' ! cp ! i) = n"
    using Suc.prems k by (auto simp: nth_list_update)
  have step: "softmax_rows ?h' cp n [Suc k..<n] =
      Inr (?h'[cp := take (Suc k) (?h' ! cp) @ map softmax (drop (Suc k) (?h' ! cp))])"
    using Suc.hyps(2) Suc.prems k rows
    by (intro Suc.hyps(1)) simp_all
  have upd: "take (Suc k) ((h ! cp)[k := softmax (h ! cp ! k)]) =
      take k (h ! cp) @ [softmax (h ! cp ! k)]"
    using k Suc.prems(2) by (simp add: take_Suc_conv_app_nth)
  have dr: "drop k (h ! cp) = (h ! cp ! k) # drop (Suc k) (h ! cp)"
    using k Suc.prems(2) by (simp add: Cons_nth_drop_Suc)
  have rr: "read_row h cp k [0..<n] = Inr (h ! cp ! k)"
    using k Suc.prems by (intro read_row_full) simp_all
  have sr: "SetRow h cp k (softmax (h ! cp ! k)) = Inr ?h'"
    using k Suc.prems by (intro SetRow_ok[where n = n]) simp_all
  have "softmax_rows h cp n [k..<n] = softmax_rows ?h' cp n [Suc k..<n]"
    using k by (simp add: upt_conv_Cons[of k n] rr sr)
  then show ?case
    using Suc.prems(1) by (simp add: step upd dr)
qed

lemma SetRow_frame:
  "SetRow h m i src = Inr h' \<Longrightarrow> length h' = length h \<and> (\<forall>k. k \<noteq> m \<longrightarrow> h' ! k = h ! k)"
  by (auto simp: SetRow_def split: if_splits)

lemma bindE_eq_Inr: "bindE m f = Inr y \<longleftrightarrow> (\<exists>x. m = Inr x \<and> f x = Inr y)"
  by (cases m) auto

text \<open>From any heap, the loop writes no cell but \<open>cp\<close>.\<close>

lemma softmax_rows_frame:
  "softmax_rows h cp n rs = Inr h' \<Longrightarrow> length h' = length h \<and> (\<forall>k. k \<noteq> cp \<longrightarrow> h' ! k = h ! k)"
proof (induction rs arbitrary: h)
  case Nil
  then show ?case by simp
next
  case (Cons r rs)
  then obtain row h1 where "SetRow h cp r (softmax row) = Inr h1"
    and "softmax_rows h1 cp n rs = Inr h'"
    by (auto simp: bindE_eq_Inr)
  then show ?case
    using Cons.IH[of h1] SetRow_frame[of h cp r "softmax row" h1] by simp
qed

lemma colsOf_attention: "V \<noteq> [] \<Longrightarrow> colsOf (attention V) = length V"
proof -
  assume "V \<noteq> []"
  then obtain v vs where "V = v # vs" by (cases V) auto
  then show ?thesis by (simp add: attention_def gram_def colsOf_def)
qed

lemma Mul_output:
  assumes "well_shaped iris" and "h ! a = vectors iris" and "h ! cp = attention (vectors iris)"
    and "x < length h" and "h ! x = replicate (length iris) (replicate 4 0)"
  shows "Mul h x (Plain cp) (Plain a) = Inr (h[x := attention_output (vectors iris)])"
proof -
  have n: "0 < length iris" using assms(1) by (simp add: well_shaped_def)
  then have "vectors iris \<noteq> []" by (simp add: vectors_def)
  then have c: "colsOf (attention (vectors iris)) = length iris"
    by (simp add: colsOf_attention)
  show ?thesis
    using n by (simp add: Mul_def Let_def assms(2,3,5) c colsOf_vectors[OF assms(1)]
        attention_output_def rowsOf_def)
qed

text \<open>
  The heap at the call of \<open>Factorize\<close>, for an input that passes the checks of
  \<^verbatim>\<open>NewDense\<close>: four matrices, at the addresses 0 to 3.
\<close>

lemma self_attention_ok:
  assumes "well_shaped iris"
  shows "self_attention iris =
    Inr ([vectors iris, gram (vectors iris), attention (vectors iris),
          attention_output (vectors iris)], 0, Suc 0, 2, 3)"
proof -
  let ?n = "length iris" and ?V = "vectors iris"
  let ?Z = "replicate ?n (replicate ?n (0::real))"
  have n: "0 < ?n" using assms by (simp add: well_shaped_def)
  have s1: "NewDense [] ?n 4 (Some (concat (map Measures iris))) = Inr (0, [?V])"
    by (rule NewDense_data[OF assms])
  have s2: "NewDense [?V] ?n ?n None = Inr (Suc 0, [?V, ?Z])"
    using n by (simp add: NewDense_nil)
  have s3: "Mul [?V, ?Z] (Suc 0) (Plain 0) (Transposed 0) = Inr [?V, gram ?V]"
    using Mul_gram[OF assms, of "[?V, ?Z]" 0 "Suc 0"] by simp
  have s4: "NewDense [?V, gram ?V] ?n ?n None = Inr (2, [?V, gram ?V, ?Z])"
    using n by (simp add: NewDense_nil)
  have s5: "Copy [?V, gram ?V, ?Z] 2 (Suc 0) = [?V, gram ?V, gram ?V]"
    using n Copy_same_shape[of 2 "[?V, gram ?V, ?Z]" ?n "Suc 0"] by simp
  have s6: "softmax_rows [?V, gram ?V, gram ?V] 2 ?n [0..<?n] = Inr [?V, gram ?V, attention ?V]"
    using softmax_rows_upt[of 2 "[?V, gram ?V, gram ?V]" ?n 0] by (simp add: attention_def)
  have s7: "NewDense [?V, gram ?V, attention ?V] ?n 4 None =
      Inr (3, [?V, gram ?V, attention ?V, replicate ?n (replicate 4 0)])"
    using n by (simp add: NewDense_nil)
  have s8: "Mul [?V, gram ?V, attention ?V, replicate ?n (replicate 4 0)] 3 (Plain 2) (Plain 0) =
      Inr [?V, gram ?V, attention ?V, attention_output ?V]"
    using Mul_output[OF assms, of "[?V, gram ?V, attention ?V, replicate ?n (replicate 4 0)]" 0 2 3]
    by simp
  show ?thesis
    by (simp add: self_attention_def Let_def s1 s2 s3 s4 s5 s6 s7 s8)
qed

lemma self_attention_error:
  assumes "\<not> well_shaped iris"
  shows "self_attention iris = Inl (if iris = [] then ErrZeroLength else ErrShape)"
  using assms by (auto simp: self_attention_def Let_def NewDense_def well_shaped_def)

lemma self_attention_InrD:
  assumes "self_attention iris = Inr (h, a, adj, cp, x)"
  shows "well_shaped iris"
    and "h = [vectors iris, gram (vectors iris), attention (vectors iris),
              attention_output (vectors iris)]"
    and "a = 0" and "adj = Suc 0" and "cp = 2" and "x = 3"
proof -
  show w: "well_shaped iris"
    using assms self_attention_error[of iris] by (cases "well_shaped iris") auto
  show "h = [vectors iris, gram (vectors iris), attention (vectors iris),
              attention_output (vectors iris)]"
    and "a = 0" and "adj = Suc 0" and "cp = 2" and "x = 3"
    using assms self_attention_ok[OF w] by simp_all
qed

lemma well_shaped_iris2: "well_shaped iris2"
  by (simp add: well_shaped_def iris2_def)

lemma vectors_iris2: "vectors iris2 = [[1, 0, 0, 0], [0, 2, 0, 0]]"
  by (simp add: vectors_def iris2_def upt_conv_Cons)

lemma gram_iris2: "gram (vectors iris2) = [[1, 0], [0, 4]]"
  by (simp add: vectors_iris2 gram_def dot_sum_def upt_conv_Cons)

lemma well_shaped_iris3: "well_shaped iris3"
  by (simp add: well_shaped_def iris3_def)

lemma vectors_iris3: "vectors iris3 = [[1, 2, 3, 4], [5, 6, 7, 8], [0, 1, 0, 2]]"
  by (simp add: vectors_def iris3_def upt_conv_Cons)

lemma gram_iris3: "gram (vectors iris3) = [[30, 70, 10], [70, 174, 22], [10, 22, 5]]"
  by (simp add: vectors_iris3 gram_def dot_sum_def upt_conv_Cons)

section \<open>The Gram matrix\<close>

text \<open>
  Symmetry needs one law only, that the product of two numbers does not depend on
  their order: the two entries are the same sum of the same products. It holds in
  particular for exact arithmetic.
\<close>

lemma gram_symmetric_any_product:
  fixes V :: "'a::{zero,plus,times} list list"
  assumes "\<And>x y::'a. x * y = y * x" and "i < length V" and "j < length V"
  shows "gram V ! i ! j = gram V ! j ! i"
  using assms(2,3) dot_sum_commute_any[OF assms(1), of "V ! i" "V ! j"]
  by (simp add: gram_nth)

text \<open>
  C7. The matrix \<open>adj\<close> that \<open>process\<close> builds with \<^verbatim>\<open>adj.Mul(a, a.T())\<close> is
  symmetric: its entries at \<open>(i, j)\<close> and \<open>(j, i)\<close> are equal, both being the sum of
  the products of the components of rows \<open>i\<close> and \<open>j\<close> of \<open>a\<close>, whatever the
  vectors are.
\<close>

theorem gram_symmetric:
  assumes "self_attention iris = Inr (h, a, adj, cp, x)"
    and "i < length iris" and "j < length iris"
  shows "h ! adj ! i ! j = h ! adj ! j ! i
    \<and> h ! adj ! i ! j = (\<Sum>(v, w)\<leftarrow>zip (h ! a ! i) (h ! a ! j). v * w)"
proof -
  let ?V = "vectors iris"
  have e: "h ! adj = gram ?V" "h ! a = ?V"
    using self_attention_InrD[OF assms(1)] by simp_all
  have ij: "gram ?V ! i ! j = dot_sum (?V ! i) (?V ! j)"
    and ji: "gram ?V ! j ! i = dot_sum (?V ! j) (?V ! i)"
    using assms(2,3) by (simp_all add: gram_nth)
  have "dot_sum (?V ! i) (?V ! j) = dot_sum (?V ! j) (?V ! i)"
    by (rule dot_sum_commute)
  then show ?thesis
    by (simp only: e ij ji dot_sum_sum_list[symmetric] simp_thms)
qed

theorem gram_symmetric_witness:
  "gram (vectors iris3) ! 0 ! 1 = gram (vectors iris3) ! 1 ! 0
   \<and> gram (vectors iris3) ! 0 ! 1 = 70"
  using gram_symmetric[OF self_attention_ok[OF well_shaped_iris3], of 0 1]
  by (simp add: iris3_def[THEN arg_cong[where f = length]] gram_iris3)

text \<open>
  C9. When \<open>process\<close> reaches \<^verbatim>\<open>eig.Factorize(adj, mat.EigenRight)\<close>, the matrix
  stored at \<open>adj\<close> is the raw Gram matrix of the rows of \<open>a\<close>: the softmax loop
  wrote its rows into \<open>cp\<close>, a different matrix, which holds the row-wise softmax
  of the Gram matrix, and from no heap does that loop change the cell \<open>adj\<close>. The
  decomposition routine is therefore applied to the un-normalized Gram matrix.
\<close>

theorem softmax_mutates_only_copy:
  assumes "self_attention iris = Inr (h, a, adj, cp, x)"
  shows "adj \<noteq> cp
    \<and> h ! adj = gram (vectors iris)
    \<and> h ! cp = map softmax (gram (vectors iris))
    \<and> (\<forall>h0 h1. softmax_rows h0 cp (length iris) [0..<length iris] = Inr h1 \<longrightarrow> h1 ! adj = h0 ! adj)
    \<and> process Factorize iris =
        (case Factorize (gram (vectors iris)) of
           None \<Rightarrow> Inl EigenFailed
         | Some (eigenvalues, eigenvectors) \<Rightarrow>
             bindE (signals h x eigenvectors [0..<length iris]) (\<lambda>(i, j). cs i j))"
proof -
  have e: "adj = Suc 0" "cp = 2" "h ! adj = gram (vectors iris)"
    "h ! cp = map softmax (gram (vectors iris))"
    using self_attention_InrD[OF assms] by (simp_all add: attention_def)
  have "process Factorize iris =
      (case Factorize (h ! adj) of
         None \<Rightarrow> Inl EigenFailed
       | Some (eigenvalues, eigenvectors) \<Rightarrow>
           bindE (signals h x eigenvectors [0..<length iris]) (\<lambda>(i, j). cs i j))"
    by (simp add: process_def assms)
  moreover have "\<forall>h0 h1. softmax_rows h0 cp (length iris) [0..<length iris] = Inr h1 \<longrightarrow>
      h1 ! adj = h0 ! adj"
    using softmax_rows_frame[of _ cp "length iris" "[0..<length iris]"] e(1,2) by simp
  ultimately show ?thesis
    using e by simp
qed

theorem softmax_mutates_only_copy_witness:
  "fst (projr (self_attention iris2)) ! 1 = [[1, 0], [0, 4]]
   \<and> fst (projr (self_attention iris2)) ! 2 = [softmax [1, 0], softmax [0, 4]]
   \<and> process (\<lambda>G. if G = [[1, 0], [0, 4]] then None else Some ([], [])) iris2 = Inl EigenFailed"
  using softmax_mutates_only_copy[OF self_attention_ok[OF well_shaped_iris2],
      of "\<lambda>G. if G = [[1, 0], [0, 4]] then None else Some ([], [])"]
  by (simp add: self_attention_ok[OF well_shaped_iris2] gram_iris2)


section \<open>The two signals\<close>

lemma signals_ok:
  assumes "\<And>r. r \<in> set rs \<Longrightarrow> r < length (h ! x) \<and> r < length ev \<and> ev ! r \<noteq> []"
    and "0 < colsOf (h ! x)"
  shows "signals h x ev rs = Inr (map (\<lambda>r. cmod (ev ! r ! 0)) rs, map (\<lambda>r. h ! x ! r ! 0) rs)"
  using assms(1)
proof (induction rs)
  case Nil
  then show ?case by simp
next
  case (Cons r rs)
  have r: "r < length (h ! x)" "r < length ev" "ev ! r \<noteq> []"
    using Cons.prems[of r] by simp_all
  have c: "CAt ev r 0 = Inr (ev ! r ! 0)"
    using r by (simp add: CAt_def)
  have a: "At h x r 0 = Inr (h ! x ! r ! 0)"
    using r assms(2) by (simp add: At_def rowsOf_def)
  have "signals h x ev rs = Inr (map (\<lambda>r. cmod (ev ! r ! 0)) rs, map (\<lambda>r. h ! x ! r ! 0) rs)"
    using Cons.prems by (intro Cons.IH) simp
  then show ?case by (simp add: c a)
qed

lemma column_upt: "map (\<lambda>r. m ! r ! j) [0..<length m] = column m j"
  by (auto simp: column_def intro!: nth_equalityI)

lemma colsOf_attention_output:
  "well_shaped iris \<Longrightarrow> colsOf (attention_output (vectors iris)) = 4"
proof -
  assume w: "well_shaped iris"
  then have "0 < length (attention (vectors iris))" by (simp add: well_shaped_def)
  then obtain r rs where "attention (vectors iris) = r # rs"
    by (cases "attention (vectors iris)") auto
  then have "colsOf (attention_output (vectors iris)) = length [0..<colsOf (vectors iris)]"
    by (simp add: attention_output_def colsOf_def)
  then show ?thesis
    by (simp add: colsOf_vectors[OF w])
qed

text \<open>
  The value of \<open>process\<close> when no call panics: the eigenvalues do not occur in it.
\<close>

lemma process_ok:
  assumes "well_shaped iris"
    and "Factorize (gram (vectors iris)) = Some (eigenvalues, eigenvectors)"
    and "length eigenvectors = length iris" and "list_all (\<lambda>row. row \<noteq> []) eigenvectors"
  shows "process Factorize iris =
    cs (map cmod (column eigenvectors 0)) (column (attention_output (vectors iris)) 0)"
proof -
  let ?h = "[vectors iris, gram (vectors iris), attention (vectors iris),
             attention_output (vectors iris)]"
  have ne: "\<And>r. r < length iris \<Longrightarrow> eigenvectors ! r \<noteq> []"
    using assms(3,4) by (simp add: list_all_length)
  have "signals ?h 3 eigenvectors [0..<length iris] =
      Inr (map (\<lambda>r. cmod (eigenvectors ! r ! 0)) [0..<length iris],
           map (\<lambda>r. ?h ! 3 ! r ! 0) [0..<length iris])"
    using assms(3) ne colsOf_attention_output[OF assms(1)]
    by (intro signals_ok) simp_all
  moreover have "map (\<lambda>r. cmod (eigenvectors ! r ! 0)) [0..<length iris] =
      map cmod (column eigenvectors 0)"
    using arg_cong[OF column_upt[of eigenvectors 0], of "map cmod"] assms(3)
    by (simp add: comp_def)
  moreover have "map (\<lambda>r. ?h ! 3 ! r ! 0) [0..<length iris] =
      column (attention_output (vectors iris)) 0"
    using column_upt[of "attention_output (vectors iris)" 0] by simp
  ultimately show ?thesis
    by (simp add: process_def self_attention_ok[OF assms(1)] assms(2))
qed

lemma process_failures:
  "\<not> well_shaped iris \<Longrightarrow>
     process Factorize iris = Inl (if iris = [] then ErrZeroLength else ErrShape)"
  "well_shaped iris \<Longrightarrow> Factorize (gram (vectors iris)) = None \<Longrightarrow>
     process Factorize iris = Inl EigenFailed"
  by (simp_all add: process_def self_attention_ok self_attention_error)

lemma square_rows_nonempty:
  "0 < n \<Longrightarrow> square n m \<Longrightarrow> length m = n \<and> list_all (\<lambda>row. row \<noteq> []) m"
  by (auto simp: square_def list_all_iff)

section \<open>The eigenvector that is compared\<close>

text \<open>
  C1. The eigenvector whose per-sample magnitudes are compared is the one of the
  dominant eigenvalue: this does not hold of \<open>process\<close>, which reads column 0 of
  the eigenvector matrix whatever the eigenvalues are (lemma \<open>process_ok\<close>). For
  the two vectors \<open>(1, 0, 0, 0)\<close> and \<open>(0, 2, 0, 0)\<close> the Gram matrix is the
  diagonal matrix of 1 and 4. A routine that returns the eigenvalues in the order
  1, 4 with the unit vectors as columns returns a correct decomposition;
  \<open>process\<close> then compares the magnitudes \<open>(1, 0)\<close> of column 0, an eigenvector of
  the eigenvalue 1 and not of the eigenvalue 4, although the eigenvalue of largest
  magnitude is the one at index 1.
\<close>

theorem first_column_not_dominant:
  "decomposition (gram (vectors iris2)) [1, 4] [[1, 0], [0, 1]]
   \<and> process (\<lambda>G. Some ([1, 4], [[1, 0], [0, 1]])) iris2 =
       cs [1, 0] (column (attention_output (vectors iris2)) 0)
   \<and> eigenpair (gram (vectors iris2)) 1 [1, 0]
   \<and> \<not> eigenpair (gram (vectors iris2)) 4 [1, 0]
   \<and> \<not> dominant [1, 4] 0
   \<and> dominant [1, 4] 1"
proof (intro conjI)
  show "decomposition (gram (vectors iris2)) [1, 4] [[1, 0], [0, 1]]"
    by (simp add: gram_iris2 decomposition_def square_def eigenpair_def column_def upt_conv_Cons)
  show "process (\<lambda>G. Some ([1, 4], [[1, 0], [0, 1]])) iris2 =
       cs [1, 0] (column (attention_output (vectors iris2)) 0)"
    using process_ok[OF well_shaped_iris2, of "\<lambda>G. Some ([1, 4], [[1, 0], [0, 1]])"
        "[1, 4]" "[[1, 0], [0, 1]]"]
    by (simp add: column_def iris2_def)
  show "eigenpair (gram (vectors iris2)) 1 [1, 0]"
    by (simp add: gram_iris2 eigenpair_def)
  show "\<not> eigenpair (gram (vectors iris2)) 4 [1, 0]"
    by (simp add: gram_iris2 eigenpair_def)
  show "\<not> dominant [1, 4] 0"
    by (simp add: dominant_def)
  show "dominant [1, 4] 1"
    by (simp add: dominant_def)
qed

section \<open>The synthetic data sets\<close>

lemma draw_length: "length (fst (draw F k g)) = k"
  by (induction k arbitrary: g) (simp_all add: Let_def)

lemma draw_range:
  assumes "\<And>g. 0 \<le> fst (F g) \<and> fst (F g) < 1"
  shows "v \<in> set (fst (draw F k g)) \<Longrightarrow> 0 \<le> v \<and> v < 1"
proof (induction k arbitrary: g)
  case 0
  then show ?case by simp
next
  case (Suc k)
  then show ?case using assms[of g] by (auto simp: Let_def)
qed

lemma fill_length: "length (fill F i k g) = k"
  by (induction k arbitrary: i g) (simp_all add: Let_def)

lemma fill_measures:
  "f \<in> set (fill F i k g) \<Longrightarrow> \<exists>g'. Measures f = fst (draw F 4 g')"
proof (induction k arbitrary: i g)
  case 0
  then show ?case by simp
next
  case (Suc k)
  show ?case
  proof (cases "f = \<lparr>Measures = fst (draw F 4 g), Label = itoa i, Cluster = 0, Index = int i\<rparr>")
    case True
    then have "Measures f = fst (draw F 4 g)" by simp
    then show ?thesis by blast
  next
    case False
    then have "f \<in> set (fill F (Suc i) k (snd (draw F 4 g)))"
      using Suc.prems by (simp add: Let_def)
    then show ?thesis by (rule Suc.IH)
  qed
qed

lemma fill_nth:
  "r < k \<Longrightarrow> Index (fill F i k g ! r) = int (i + r) \<and> Label (fill F i k g ! r) = itoa (i + r)
     \<and> Cluster (fill F i k g ! r) = 0"
proof (induction k arbitrary: i g r)
  case 0
  then show ?case by simp
next
  case (Suc k)
  show ?case
  proof (cases r)
    case 0
    then show ?thesis by (simp add: Let_def)
  next
    case (Suc r')
    then show ?thesis using Suc.IH[of r' "Suc i"] Suc.prems by (simp add: Let_def)
  qed
qed

lemma fill_hd: "fill F i (Suc k) g ! 0 = \<lparr>Measures = fst (draw F 4 g), Label = itoa i, Cluster = 0, Index = int i\<rparr>"
  by (simp add: Let_def)

text \<open>The store is read and written at the cell of the generator of the call only.\<close>

lemma draw_in_draw:
  "rng < length st \<Longrightarrow>
   draw_in F rng k st = (fst (draw F k (st ! rng)), st[rng := snd (draw F k (st ! rng))])"
proof (induction k arbitrary: st)
  case 0
  then show ?case by simp
next
  case (Suc k)
  let ?st = "st[rng := snd (F (st ! rng))]"
  have "rng < length ?st" using Suc.prems by simp
  then have "draw_in F rng k ?st =
      (fst (draw F k (?st ! rng)), ?st[rng := snd (draw F k (?st ! rng))])"
    by (rule Suc.IH)
  then show ?case using Suc.prems by (simp add: Float64_in_def Let_def)
qed

lemma fill_in_fill:
  "rng < length st \<Longrightarrow>
   fst (fill_in F rng i k st) = fill F i k (st ! rng) \<and>
   (\<exists>g. snd (fill_in F rng i k st) = st[rng := g])"
proof (induction k arbitrary: st i)
  case 0
  have "st = st[rng := st ! rng]" by simp
  then have "\<exists>g. st = st[rng := g]" by (rule exI)
  then show ?case by simp
next
  case (Suc k)
  let ?st = "st[rng := snd (draw F 4 (st ! rng))]"
  have l: "rng < length ?st" using Suc.prems by simp
  have ih: "fst (fill_in F rng (Suc i) k ?st) = fill F (Suc i) k (?st ! rng) \<and>
      (\<exists>g. snd (fill_in F rng (Suc i) k ?st) = ?st[rng := g])"
    using l by (rule Suc.IH)
  then obtain g where g: "snd (fill_in F rng (Suc i) k ?st) = ?st[rng := g]" by blast
  have "snd (fill_in F rng i (Suc k) st) = st[rng := g]"
    using Suc.prems g by (simp add: draw_in_draw Let_def)
  moreover have "fst (fill_in F rng i (Suc k) st) = fill F i (Suc k) (st ! rng)"
    using Suc.prems ih by (simp add: draw_in_draw Let_def)
  ultimately show ?case by blast
qed

lemma Random_in_Random:
  "fst (Random_in NewSource Float64 seed st) = Random NewSource Float64 seed"
  using fill_in_fill[of "length st" "st @ [NewSource seed]" Float64 0 150]
  by (simp add: Random_in_def NewSource_in_def Random_def)

lemma Random_in_frame:
  "length (snd (Random_in NewSource Float64 seed st)) = Suc (length st) \<and>
   take (length st) (snd (Random_in NewSource Float64 seed st)) = st"
proof -
  obtain g where "snd (fill_in Float64 (length st) 0 150 (st @ [NewSource seed])) =
      (st @ [NewSource seed])[length st := g]"
    using fill_in_fill[of "length st" "st @ [NewSource seed]" Float64 0 150] by auto
  then show ?thesis by (simp add: Random_in_def NewSource_in_def)
qed

lemma counter_range: "0 \<le> fst (counterFloat64 g) \<and> fst (counterFloat64 g) < 1"
  by (simp add: counterFloat64_def)


lemma Random_first:
  "Measures (Random NewSource Float64 seed ! 0) = fst (draw Float64 4 (NewSource seed))"
proof -
  have e: "(150::nat) = Suc 149" by simp
  show ?thesis
    unfolding Random_def e by (simp only: fill_hd Fisher.simps)
qed

lemma draw_4:
  "fst (draw F 4 g) =
     [fst (F g), fst (F (snd (F g))), fst (F (snd (F (snd (F g))))),
      fst (F (snd (F (snd (F (snd (F g)))))))]"
proof -
  have "(4::nat) = Suc (Suc (Suc (Suc 0)))" by simp
  then show ?thesis by (simp only: draw.simps Let_def fst_conv snd_conv)
qed

lemma Random_counter_first:
  "Measures (Random counterSource counterFloat64 1 ! 0) = [1 / 10, 2 / 10, 3 / 10, 4 / 10]"
  by (simp add: Random_first draw_4 counterFloat64_def counterSource_def)

text \<open>
  C8. \<open>Random\<close> is deterministic. The generators of the program live in a store;
  \<open>Random\<close> allocates its own from the seed and advances no other. So the records
  it returns are the same from any two stores, in particular when it is called
  twice in a row with the same seed; the generators that existed before the call
  are left as they were; and the records are those of the store-free function
  \<open>Random\<close> used by \<open>main\<close>. The result has 150 records, each with 4 measures
  (and with its position as index and label); every measure lies in \<open>[0, 1)\<close>,
  given that \<^verbatim>\<open>rng.Float64()\<close> returns a number of that interval, as its contract
  says.
\<close>

theorem Random_reproducible:
  assumes "\<And>g. 0 \<le> fst (Float64 g) \<and> fst (Float64 g) < 1"
  shows "fst (Random_in NewSource Float64 seed st') = fst (Random_in NewSource Float64 seed st)
    \<and> fst (Random_in NewSource Float64 seed (snd (Random_in NewSource Float64 seed st))) =
        fst (Random_in NewSource Float64 seed st)
    \<and> take (length st) (snd (Random_in NewSource Float64 seed st)) = st
    \<and> fst (Random_in NewSource Float64 seed st) = Random NewSource Float64 seed
    \<and> length (Random NewSource Float64 seed) = 150
    \<and> (\<forall>f \<in> set (Random NewSource Float64 seed).
          length (Measures f) = 4 \<and> (\<forall>v \<in> set (Measures f). 0 \<le> v \<and> v < 1))
    \<and> (\<forall>r < 150. Index (Random NewSource Float64 seed ! r) = int r
          \<and> Label (Random NewSource Float64 seed ! r) = itoa r)"
proof (intro conjI ballI allI impI)
  show "fst (Random_in NewSource Float64 seed st') = fst (Random_in NewSource Float64 seed st)"
    by (simp only: Random_in_Random)
  show "fst (Random_in NewSource Float64 seed (snd (Random_in NewSource Float64 seed st))) =
        fst (Random_in NewSource Float64 seed st)"
    by (simp only: Random_in_Random)
  show "take (length st) (snd (Random_in NewSource Float64 seed st)) = st"
    using Random_in_frame[of NewSource Float64 seed st] by (rule conjunct2)
  show "fst (Random_in NewSource Float64 seed st) = Random NewSource Float64 seed"
    by (rule Random_in_Random)
  show "length (Random NewSource Float64 seed) = 150"
    by (simp add: Random_def fill_length)
next
  fix f assume "f \<in> set (Random NewSource Float64 seed)"
  then obtain g' where m: "Measures f = fst (draw Float64 4 g')"
    using fill_measures[of f Float64 0 150 "NewSource seed"] by (auto simp: Random_def)
  show "length (Measures f) = 4"
    by (simp add: m draw_length)
  fix v assume "v \<in> set (Measures f)"
  then have "0 \<le> v \<and> v < 1"
    using draw_range[of Float64 v 4 g'] assms by (simp add: m)
  then show "0 \<le> v" and "v < 1" by simp_all
next
  fix r :: nat assume "r < 150"
  then show "Index (Random NewSource Float64 seed ! r) = int r"
    and "Label (Random NewSource Float64 seed ! r) = itoa r"
    using fill_nth[of r 150 Float64 0 "NewSource seed"] by (simp_all add: Random_def)
qed

theorem Random_reproducible_witness:
  "fst (Random_in counterSource counterFloat64 1 [5, 9]) =
     fst (Random_in counterSource counterFloat64 1 [])
   \<and> take 2 (snd (Random_in counterSource counterFloat64 1 [5, 9])) = [5, 9]
   \<and> length (fst (Random_in counterSource counterFloat64 1 [5, 9])) = 150
   \<and> list_all (\<lambda>f. length (Measures f) = 4 \<and> list_all (\<lambda>v. 0 \<le> v \<and> v < 1) (Measures f))
        (fst (Random_in counterSource counterFloat64 1 [5, 9]))
   \<and> Measures (fst (Random_in counterSource counterFloat64 1 [5, 9]) ! 0) =
        [1 / 10, 2 / 10, 3 / 10, 4 / 10]"
proof -
  note t = Random_reproducible[of counterFloat64 counterSource 1 "[5, 9]" "[]", OF counter_range]
  note u = Random_reproducible[of counterFloat64 counterSource 1 "[]" "[5, 9]", OF counter_range]
  have e: "fst (Random_in counterSource counterFloat64 1 [5, 9]) =
      Random counterSource counterFloat64 1"
    using u[THEN conjunct2, THEN conjunct2, THEN conjunct2, THEN conjunct1] .
  have "fst (Random_in counterSource counterFloat64 1 [5, 9]) =
      fst (Random_in counterSource counterFloat64 1 [])"
    using t by (rule conjunct1)
  moreover have "take 2 (snd (Random_in counterSource counterFloat64 1 [5, 9])) = [5, 9]"
    using u[THEN conjunct2, THEN conjunct2, THEN conjunct1] by (simp add: numeral_2_eq_2)
  moreover have "length (Random counterSource counterFloat64 1) = 150"
    using t[THEN conjunct2, THEN conjunct2, THEN conjunct2, THEN conjunct2, THEN conjunct1] .
  moreover have "list_all (\<lambda>f. length (Measures f) = 4 \<and> list_all (\<lambda>v. 0 \<le> v \<and> v < 1) (Measures f))
        (Random counterSource counterFloat64 1)"
    using t[THEN conjunct2, THEN conjunct2, THEN conjunct2, THEN conjunct2, THEN conjunct2,
        THEN conjunct1]
    by (simp only: list_all_iff)
  ultimately show ?thesis
    using Random_counter_first by (simp only: e simp_thms)
qed


section \<open>The suite\<close>

lemma synthetic_trials_collect:
  "synthetic_trials Factorize random is count =
     bindE (collect (map (\<lambda>i. process Factorize (random (of_nat (i + 1)))) is))
       (\<lambda>cs. Inr (count + length (filter (\<lambda>c. c < 95 / 100) cs)))"
proof (induction "is" arbitrary: count)
  case Nil
  then show ?case by simp
next
  case (Cons i "is")
  show ?case
  proof (cases "process Factorize (random (of_nat (i + 1)))")
    case (Inl e)
    then show ?thesis by simp
  next
    case (Inr c)
    then show ?thesis
      by (cases "collect (map (\<lambda>i. process Factorize (random (of_nat (i + 1)))) is)")
         (simp_all add: Cons.IH)
  qed
qed

lemma seeds_shift: "map (\<lambda>i. f (i + 1)) [0..<128] = map f [1..<129]"
proof -
  have "map f (map Suc [0..<128]) = map f [Suc 0..<Suc 128]"
    by (simp only: map_Suc_upt)
  then show ?thesis by (simp add: comp_def)
qed

lemma length_concat_measures:
  "(\<And>f. f \<in> set xs \<Longrightarrow> length (Measures f) = 4) \<Longrightarrow>
   length (concat (map Measures xs)) = length xs * 4"
  by (induction xs) simp_all

lemma Random_well_shaped: "well_shaped (Random NewSource Float64 seed)"
proof -
  let ?R = "Random NewSource Float64 seed"
  have l: "length ?R = 150" by (simp add: Random_def fill_length)
  have "\<And>f. f \<in> set ?R \<Longrightarrow> length (Measures f) = 4"
  proof -
    fix f assume "f \<in> set ?R"
    then obtain g' where "Measures f = fst (draw Float64 4 g')"
      using fill_measures[of f Float64 0 150 "NewSource seed"] by (auto simp: Random_def)
    then show "length (Measures f) = 4" by (simp add: draw_length)
  qed
  then have "length (concat (map Measures ?R)) = length ?R * 4"
    by (rule length_concat_measures)
  moreover have "?R \<noteq> []" using l by auto
  ultimately show ?thesis by (simp add: well_shaped_def)
qed

lemma cs_zero_left: "length b = n \<Longrightarrow> cs (replicate n 0) b = Inr 0"
  by (simp add: cs_def dot_def dot_sum_self sum_list_replicate)

lemma process_zeroEigen: "well_shaped iris \<Longrightarrow> process zeroEigen iris = Inr 0"
proof -
  assume w: "well_shaped iris"
  let ?n = "length iris"
  have n: "0 < ?n" using w by (simp add: well_shaped_def)
  have "process zeroEigen iris =
    cs (map cmod (column (replicate ?n (replicate ?n 0)) 0)) (column (attention_output (vectors iris)) 0)"
    using n by (intro process_ok[OF w, of _ "replicate ?n 0"]) (simp_all add: zeroEigen_def list_all_iff)
  also have "map cmod (column (replicate ?n (replicate ?n (0::complex))) 0) = replicate ?n 0"
    using n by (simp add: column_def)
  finally show ?thesis
    by (simp add: cs_zero_left column_def)
qed

lemma collect_const:
  "(\<And>x. x \<in> set xs \<Longrightarrow> f x = Inr c) \<Longrightarrow> collect (map f xs) = Inr (replicate (length xs) c)"
  by (induction xs) simp_all

lemma itoa_129: "itoa 129 = ''129''"
  by (simp add: itoa.simps digit_def)


text \<open>
  C2. \<open>main\<close> processes the reference data set, then the 128 synthetic data sets
  of the seeds 1 to 128 (the loop index plus one), in that order, 129 trials in
  all; a panic of \<open>Load\<close> or of a trial ends the run. Otherwise the line it prints
  starts with the number of trials whose cosine similarity is strictly below 0.95,
  followed by \<open>/129\<close>.
\<close>

theorem main_suite:
  "main Load NewSource Float64 Factorize =
     bindE Load (\<lambda>iris.
     bindE (collect (map (process Factorize)
              (iris # map (\<lambda>seed. Random NewSource Float64 (of_nat seed)) [1..<129]))) (\<lambda>cs.
     Inr (itoa (length (filter (\<lambda>c. c < 95 / 100) cs))
          @ ''/129 outside of cosine similarity .95'' @ [CHR 0x0A])))
   \<and> length (iris0 # map (\<lambda>seed. Random NewSource Float64 (of_nat seed)) [1..<129]) = 129"
proof
  show "length (iris0 # map (\<lambda>seed. Random NewSource Float64 (of_nat seed)) [1..<129]) = 129"
    by simp
  let ?syn = "map (\<lambda>seed. process Factorize (Random NewSource Float64 (of_nat seed))) [1..<129]"
  let ?lhs = "bindE Load (\<lambda>iris.
     bindE (process Factorize iris) (\<lambda>first.
     bindE (bindE (collect ?syn)
              (\<lambda>cs. Inr ((if first < 95 / 100 then 1 else 0)
                          + length (filter (\<lambda>c. c < 95 / 100) cs))))
       (\<lambda>count. Inr (itoa count @ ''/129 outside of cosine similarity .95'' @ [CHR 0x0A]))))"
  let ?rhs = "bindE Load (\<lambda>iris.
     bindE (collect (map (process Factorize)
              (iris # map (\<lambda>seed. Random NewSource Float64 (of_nat seed)) [1..<129]))) (\<lambda>cs.
     Inr (itoa (length (filter (\<lambda>c. c < 95 / 100) cs))
          @ ''/129 outside of cosine similarity .95'' @ [CHR 0x0A])))"
  have syn: "map (\<lambda>i. process Factorize (Random NewSource Float64 (of_nat (i + 1)))) [0..<128] = ?syn"
    by (rule seeds_shift)
  have m: "main Load NewSource Float64 Factorize = ?lhs"
    unfolding main_def synthetic_trials_collect syn ..
  have "?lhs = ?rhs"
  proof (cases Load)
    case (Inl e)
    then show ?thesis by simp
  next
    case (Inr iris)
    show ?thesis
    proof (cases "process Factorize iris")
      case (Inl e)
      then show ?thesis using Inr by simp
    next
      case first: (Inr c)
      show ?thesis
      proof (cases "collect ?syn")
        case (Inl e)
        then show ?thesis
          using Inr first by (simp add: comp_def del: upt_Suc)
      next
        case rest: (Inr cs)
        then show ?thesis
          using Inr first by (simp add: comp_def del: upt_Suc)
      qed
    qed
  qed
  with m show "main Load NewSource Float64 Factorize = ?rhs"
    by (simp only:)
qed

theorem main_suite_witness:
  "main (Inr iris3) counterSource counterFloat64 zeroEigen =
     Inr (''129/129 outside of cosine similarity .95'' @ [CHR 0x0A])"
proof -
  let ?trials = "iris3 # map (\<lambda>seed. Random counterSource counterFloat64 (of_nat seed)) [1..<129]"
  have "\<And>t. t \<in> set ?trials \<Longrightarrow> process zeroEigen t = Inr 0"
    using well_shaped_iris3 Random_well_shaped[of counterSource counterFloat64]
    by (auto intro!: process_zeroEigen simp del: upt_Suc)
  then have "collect (map (process zeroEigen) ?trials) = Inr (replicate (length ?trials) 0)"
    by (rule collect_const)
  then have c: "collect (map (process zeroEigen) ?trials) = Inr (replicate 129 0)"
    by simp
  have f: "length (filter (\<lambda>c. c < 95 / 100) (replicate 129 (0::real))) = 129"
    by simp
  have "main (Inr iris3) counterSource counterFloat64 zeroEigen =
      Inr (itoa (length (filter (\<lambda>c. c < 95 / 100) (replicate 129 (0::real))))
           @ ''/129 outside of cosine similarity .95'' @ [CHR 0x0A])"
    using main_suite[of "Inr iris3" counterSource counterFloat64 zeroEigen iris3]
    by (simp only: bindE_Inr c)
  then show ?thesis
    by (simp add: f itoa_129)
qed


section \<open>Exact arithmetic\<close>
























section \<open>Rounding\<close>

text \<open>Facts about \<open>rne\<close>, \<open>quantum\<close> and \<open>round64\<close>.\<close>

lemma quantum_pos [simp]: "0 < quantum x"
  by (simp add: quantum_def)

lemma rne_of_int [simp]: "rne (of_int n) = n"
  by (simp add: rne_def)

lemma rne_eqI: "\<bar>y - of_int m\<bar> < 1 / 2 \<Longrightarrow> rne y = m"
proof -
  assume a: "\<bar>y - of_int m\<bar> < 1 / 2"
  show ?thesis
  proof (cases "of_int m \<le> y")
    case True
    then have "\<lfloor>y\<rfloor> = m" using a by (intro floor_unique) auto
    then show ?thesis using a True by (simp add: rne_def)
  next
    case False
    then have f: "\<lfloor>y\<rfloor> = m - 1" using a by (intro floor_unique) auto
    have "1 / 2 < y - of_int (m - 1)" using a False by auto
    then show ?thesis using f by (simp add: rne_def Let_def)
  qed
qed

lemma rne_ge: "of_int k \<le> y \<Longrightarrow> k \<le> rne y"
proof -
  assume "of_int k \<le> y"
  then have "k \<le> \<lfloor>y\<rfloor>" by (simp add: le_floor_iff)
  moreover have "\<lfloor>y\<rfloor> \<le> rne y" by (simp add: rne_def Let_def)
  ultimately show ?thesis by simp
qed

lemma rne_le: "y \<le> of_int k \<Longrightarrow> rne y \<le> k"
proof -
  assume a: "y \<le> of_int k"
  show ?thesis
  proof (cases "y = of_int \<lfloor>y\<rfloor>")
    case True
    then have "rne y = \<lfloor>y\<rfloor>" by (metis rne_of_int)
    moreover have "\<lfloor>y\<rfloor> \<le> k" using a by (simp add: floor_le_iff)
    ultimately show ?thesis by simp
  next
    case False
    moreover have "of_int \<lfloor>y\<rfloor> \<le> y" by simp
    ultimately have "of_int \<lfloor>y\<rfloor> < y" by linarith
    then have "of_int \<lfloor>y\<rfloor> < (of_int k :: real)" using a by linarith
    then have "\<lfloor>y\<rfloor> + 1 \<le> k" by simp
    moreover have "rne y \<le> \<lfloor>y\<rfloor> + 1" by (simp add: rne_def Let_def)
    ultimately show ?thesis by simp
  qed
qed

text \<open>The exponent of the unit in the last place.\<close>

lemma quantum_normal:
  assumes "2 powi k \<le> \<bar>x\<bar>" and "\<bar>x\<bar> < 2 powi (k + 1)" and "- 1022 \<le> k"
  shows "quantum x = 2 powi (k - 52)"
proof -
  have pos: "0 < \<bar>x\<bar>" by (rule less_le_trans[OF _ assms(1)]) simp
  have p: "\<And>n. (2::real) powr real_of_int n = 2 powi n"
    by (rule powr_real_of_int') simp_all
  have b: "(1::real) < 2" by simp
  have "2 powr real_of_int k \<le> \<bar>x\<bar> \<and> \<bar>x\<bar> < 2 powr real_of_int (k + 1)"
    unfolding p using assms(1,2) by (rule conjI)
  then have "\<lfloor>log 2 \<bar>x\<bar>\<rfloor> = k"
    by (rule floor_log_eq_powr_iff[OF pos b, THEN iffD2])
  then show ?thesis using assms(3) by (simp add: quantum_def)
qed


lemma rne_zero [simp]: "rne 0 = 0"
  using rne_of_int[of 0] by simp

lemma round64_zero [simp]: "round64 0 = Finite 0"
  by (simp add: round64_def)


text \<open>A number in the binade of \<open>2 powi k\<close> rounds to the nearest multiple of \<open>2 powi (k - 52)\<close>.\<close>

lemma round64_normal:
  assumes "2 powi k \<le> \<bar>x\<bar>" and "\<bar>x\<bar> < 2 powi (k + 1)" and "- 1022 \<le> k" and "k \<le> 1022"
    and "\<bar>x / 2 powi (k - 52) - of_int m\<bar> < 1 / 2"
  shows "round64 x = Finite (2 powi (k - 52) * of_int m)"
proof -
  let ?q = "(2::real) powi (k - 52)"
  have q: "quantum x = ?q" by (rule quantum_normal[OF assms(1,2,3)])
  have m: "rne (x / ?q) = m" by (rule rne_eqI[OF assms(5)])
  have qpos: "0 < ?q" by simp
  have "\<bar>x / ?q\<bar> < 2 powi 53"
  proof -
    have "\<bar>x / ?q\<bar> = \<bar>x\<bar> / ?q" by simp
    also have "\<dots> < 2 powi (k + 1) / ?q"
      using assms(2) qpos by (simp add: divide_strict_right_mono)
    also have "\<dots> = 2 powi 53"
      by (simp add: power_int_diff[symmetric])
    finally show ?thesis .
  qed
  then have "x / ?q < 2 ^ 53" and "- (2 ^ 53) < x / ?q"
    unfolding abs_less_iff by simp_all
  then have "x / ?q \<le> of_int (2 ^ 53)" and "of_int (- (2 ^ 53)) \<le> x / ?q" by simp_all
  then have "m \<le> 2 ^ 53" and "- (2 ^ 53) \<le> m"
    using rne_le[of "x / ?q" "2 ^ 53"] rne_ge[of "- (2 ^ 53)" "x / ?q"] m by simp_all
  then have "\<bar>real_of_int m\<bar> \<le> 2 powi 53" by (simp add: abs_le_iff)
  then have "\<bar>?q * of_int m\<bar> \<le> ?q * 2 powi 53"
    by (simp add: abs_mult)
  also have "\<dots> = 2 powi ((k - 52) + 53)"
    by (rule power_int_add[symmetric]) simp
  also have "\<dots> = 2 powi (k + 1)"
    by (rule arg_cong[where f = "\<lambda>n. 2 powi n"]) simp
  also have "\<dots> \<le> 2 powi 1023"
    using assms(4) by (intro power_int_increasing) simp_all
  also have "\<dots> < 2 ^ 1024" by simp
  finally have "\<not> 2 ^ 1024 \<le> \<bar>?q * of_int m\<bar>" by simp
  then show ?thesis
    by (simp only: round64_def q m Let_def if_False)
qed


lemma pow2_less_iff: "(2::real) powi m < 2 powi n \<longleftrightarrow> m < n"
proof
  assume a: "(2::real) powi m < 2 powi n"
  show "m < n"
  proof (rule ccontr)
    assume "\<not> m < n"
    then have "(2::real) powi n \<le> 2 powi m" by (intro power_int_increasing) simp_all
    with a show False by simp
  qed
next
  assume "m < n"
  then show "(2::real) powi m < 2 powi n" by (intro power_int_strict_increasing) simp_all
qed

lemma pow2_le_iff: "(2::real) powi m \<le> 2 powi n \<longleftrightarrow> m \<le> n"
  using pow2_less_iff[of n m] by (simp add: not_less[symmetric] del: not_less)

lemma binade:
  assumes "0 < (x::real)"
  obtains k where "2 powi k \<le> x" and "x < 2 powi (k + 1)"
proof -
  have p: "\<And>n. (2::real) powr real_of_int n = 2 powi n"
    by (rule powr_real_of_int') simp_all
  have b: "(1::real) < 2" by simp
  have "2 powr real_of_int \<lfloor>log 2 x\<rfloor> \<le> x \<and> x < 2 powr real_of_int (\<lfloor>log 2 x\<rfloor> + 1)"
    by (rule floor_log_eq_powr_iff[OF assms b, THEN iffD1]) simp
  then show ?thesis using that[of "\<lfloor>log 2 x\<rfloor>"] unfolding p by blast
qed

lemma round64_overflow:
  assumes "2 powi 1024 \<le> x"
  shows "round64 x = PosInf"
proof -
  have x: "0 < x" using assms by (rule less_le_trans[rotated]) simp
  obtain k where k: "2 powi k \<le> x" "x < 2 powi (k + 1)" using binade[OF x] by blast
  have "(2::real) powi 1024 < 2 powi (k + 1)" using assms k(2) by linarith
  then have k1024: "1024 \<le> k" by (simp only: pow2_less_iff)
  let ?q = "(2::real) powi (k - 52)"
  have q: "quantum x = ?q"
    using k x k1024 by (intro quantum_normal) simp_all
  have "?q * 2 powi 52 = 2 powi ((k - 52) + 52)"
    by (rule power_int_add[symmetric]) simp
  then have e: "?q * 2 powi 52 = 2 powi k" by simp
  have "of_int (2 ^ 52) \<le> x / ?q"
  proof -
    have "2 powi 52 * ?q \<le> x" using k(1) e by (simp add: mult.commute)
    then have "2 powi 52 \<le> x / ?q" by (simp add: pos_le_divide_eq)
    then show ?thesis by simp
  qed
  then have "2 ^ 52 \<le> rne (x / ?q)" by (rule rne_ge)
  then have "real_of_int (2 ^ 52) \<le> of_int (rne (x / ?q))"
    by (simp only: of_int_le_iff)
  then have "(2::real) powi 52 \<le> of_int (rne (x / ?q))"
    by simp
  then have "?q * 2 powi 52 \<le> ?q * of_int (rne (x / ?q))"
    by (intro mult_left_mono) simp_all
  then have "2 powi k \<le> ?q * of_int (rne (x / ?q))" by (simp only: e)
  moreover have "(2::real) powi 1024 \<le> 2 powi k"
    using k1024 by (intro power_int_increasing) simp_all
  ultimately have "2 ^ 1024 \<le> \<bar>?q * of_int (rne (x / ?q))\<bar>" by simp
  then show ?thesis using x by (simp only: round64_def q Let_def if_True)
qed

lemma round64_int:
  assumes "\<bar>n\<bar> \<le> 2 ^ 53"
  shows "round64 (of_int n) = Finite (of_int n)"
proof (cases "n = 0")
  case True
  then show ?thesis by simp
next
  case False
  let ?x = "real_of_int n"
  have pos: "0 < \<bar>?x\<bar>" using False by simp
  obtain k where k: "2 powi k \<le> \<bar>?x\<bar>" "\<bar>?x\<bar> < 2 powi (k + 1)" using binade[OF pos] by blast
  have "1 \<le> \<bar>?x\<bar>" using False by (simp flip: of_int_abs add: of_int_le_iff[of 1, simplified] del: of_int_abs) 
  then have "(2::real) powi 0 < 2 powi (k + 1)" using k(2) by simp
  then have k0: "0 \<le> k" by (simp only: pow2_less_iff)
  have "real_of_int \<bar>n\<bar> \<le> real_of_int (2 ^ 53)"
    using assms by (simp only: of_int_le_iff)
  then have "\<bar>?x\<bar> \<le> 2 powi 53"
    by simp
  then have "(2::real) powi k \<le> 2 powi 53" using k(1) by linarith
  then have k53: "k \<le> 53" by (simp only: pow2_le_iff)
  show ?thesis
  proof (cases "k = 53")
    case True
    then have "real_of_int (2 ^ 53) \<le> real_of_int \<bar>n\<bar>" using k(1) by simp
    then have "2 ^ 53 \<le> \<bar>n\<bar>" by (simp only: of_int_le_iff)
    then have "n = 2 ^ 53 \<or> n = - (2 ^ 53)" using assms by (simp add: abs_if split: if_splits)
    then have h: "?x / 2 powi (k - 52) = of_int (n div 2) \<and> 2 * (n div 2) = n"
      using True by auto
    have a: "- 1022 \<le> k" "k \<le> 1022" using True by linarith+
    have b: "\<bar>?x / 2 powi (k - 52) - of_int (n div 2)\<bar> < 1 / 2"
      using h by simp
    have "round64 ?x = Finite (2 powi (k - 52) * of_int (n div 2))"
      by (rule round64_normal[OF k a b])
    also have "2 powi (k - 52) * of_int (n div 2) = of_int (2 * (n div 2))"
      using True by simp
    also have "\<dots> = ?x" using h by simp
    finally show ?thesis .
  next
    case False
    then have k52: "k \<le> 52" using k53 by simp
    have q: "(2::real) powi (k - 52) * 2 ^ nat (52 - k) = 1"
      using k52 by (simp add: power_int_def field_simps)
    then have d: "?x / 2 powi (k - 52) = of_int (n * 2 ^ nat (52 - k))"
      by (simp add: field_simps)
    have a: "- 1022 \<le> k" "k \<le> 1022" using k0 k52 by linarith+
    have b: "\<bar>?x / 2 powi (k - 52) - of_int (n * 2 ^ nat (52 - k))\<bar> < 1 / 2"
      by (simp only: d)
    have "round64 ?x = Finite (2 powi (k - 52) * of_int (n * 2 ^ nat (52 - k)))"
      by (rule round64_normal[OF k a b])
    also have "2 powi (k - 52) * of_int (n * 2 ^ nat (52 - k)) = ?x"
      using q by (simp add: field_simps)
    finally show ?thesis .
  qed
qed

section \<open>The operations of \<^typ>\<open>float64\<close>\<close>

lemmas float64_ops = zero_float64_def plus_float64_def minus_float64_def times_float64_def
  divide_float64_def less_float64_def less_eq_float64_def


lemma fadd_commute: "fadd x y = fadd y x"
  by (cases x; cases y) (simp_all add: add.commute)




lemma round64_numeral [simp]:
  "numeral n \<le> (2::int) ^ 53 \<Longrightarrow> round64 (numeral n) = Finite (numeral n)"
  using round64_int[of "numeral n"] by simp

lemma round64_neg_numeral [simp]:
  "numeral n \<le> (2::int) ^ 53 \<Longrightarrow> round64 (- numeral n) = Finite (- numeral n)"
  using round64_int[of "- numeral n"] by simp

lemma round64_one [simp]: "round64 1 = Finite 1"
  using round64_int[of 1] by simp













lemma quantum_nonneg [simp]: "0 \<le> quantum x"
  by (rule less_imp_le) (rule quantum_pos)





section \<open>The closures at the two types\<close>

























lemma nonneg64_iff: "nonneg64 t \<longleftrightarrow> t = PosInf \<or> (\<exists>r. t = Finite r \<and> 0 \<le> r)"
  by (cases t) simp_all



lemma ge_one64_nonneg: "Finite 1 \<le> t \<Longrightarrow> nonneg64 t"
  by (cases t) (simp_all add: float64_ops)







section \<open>The closures in \<^verbatim>\<open>float64\<close>\<close>





















end
